theory Spec2Isabelle
  imports Main
begin

section \<open>The Redis cacher (src/cachers/redis.js): values, errors, commands\<close>

text \<open>
  A JavaScript error object. The cacher reads and writes one property of it, \<open>pattern\<close>
  (\<open>err.pattern = pattern\<close> in \<open>_nodeScanDel\<close>, \<open>err.pattern\<close> in \<open>clean\<close>);
  \<open>None\<close> is the property being undefined.
\<close>

datatype err_class =
  BrokerOptionsError | SyntaxError | TypeError | LockError | ReplyError | Fatal

record err =
  err_class :: err_class
  message :: string
  pattern :: "string option"

text \<open>
  A JavaScript value as \<open>JSON.parse\<close> returns it. The cacher never looks inside a
  parsed value, so numbers are kept as integers.
\<close>

datatype json =
  JNull | JBool bool | JNum int | JStr string | JArr "json list" | JObj "(string \<times> json) list"

text \<open>
  An optional numeric argument such as \<open>ttl\<close>: omitted (undefined), \<open>null\<close>,
  or a number.
\<close>

datatype num_arg = Undefined | Null | Num int

fun truthy :: "num_arg \<Rightarrow> bool" where
  "truthy (Num n) = (n \<noteq> 0)"
| "truthy _ = False"

text \<open>\<open>x == null\<close> holds of undefined and of null.\<close>

fun eq_null :: "num_arg \<Rightarrow> bool" where
  "eq_null (Num n) = False"
| "eq_null _ = True"

text \<open>The requests the cacher sends through the ioredis client.\<close>

datatype command =
  GET string
| SET string string
| SETEX string int string
| DEL "string list"
| TTL string
| PIPELINE "command list"

datatype log = Debug string | Info string | Warn string | Error string

text \<open>
  What one call of a facade operation does: the requests it sends, the lines it logs
  (the extra arguments of \<open>logger.error\<close> are left out), and how its promise settles
  (\<open>Inl\<close> is a rejection or a synchronous throw).
\<close>

record 'a outcome =
  sent :: "command list"
  logged :: "log list"
  answer :: "err + 'a"

section \<open>Construction: init\<close>

text \<open>
  The ioredis client object: \<open>new Redis(opts.redis)\<close> or
  \<open>new Redis.Cluster(opts.cluster.nodes, opts.cluster.options)\<close>. Connection
  parameters and cluster options are opaque texts.
\<close>

datatype client = Redis string | Cluster "string list" string

fun is_cluster :: "client \<Rightarrow> bool" where
  "is_cluster (Cluster ns co) = True"
| "is_cluster (Redis r) = False"

text \<open>
  The options the cacher reads. A field that may be missing is an option; \<open>ttl\<close>
  of the options is \<open>opt_ttl\<close>, \<open>redlock\<close> of the options is \<open>opt_redlock\<close>.
\<close>

record cluster_opts =
  nodes :: "string list option"
  options :: string

record redlock_opts =
  clients :: "client list option"
  retryCount :: "nat option"

record opts =
  opt_ttl :: num_arg
  cluster :: "cluster_opts option"
  redis :: string
  opt_redlock :: "redlock_opts option"
  monitor :: bool

text \<open>A Redlock instance: the clients it locks on and its retry setting.\<close>

record redlock =
  rl_clients :: "client list"
  rl_retryCount :: "nat option"

text \<open>The fields of the cacher object that the operations read.\<close>

record cacher =
  prefix :: string
  copts :: opts
  client :: client
  redlock :: "redlock option"
  redlockNonBlocking :: "redlock option"

text \<open>
  What \<open>init\<close> does: the client objects it constructs (each opens connections), whether
  it sends MONITOR, the lines it logs, and the cacher it leaves or the error it throws.
\<close>

record init_outcome =
  constructed :: "client list"
  monitoring :: bool
  init_logged :: "log list"
  made :: "err + cacher"

definition fatal_ioredis :: err where
  "fatal_ioredis = \<lparr>err_class = Fatal,
     message = ''The 'ioredis' package is missing. Please install it with 'npm install ioredis --save' command.'',
     pattern = None\<rparr>"

definition no_connection_details :: err where
  "no_connection_details = \<lparr>err_class = BrokerOptionsError,
     message = ''No connection details defined for cluster'', pattern = None\<rparr>"

text \<open>
  \<open>init(broker)\<close>. \<open>has_ioredis\<close> and \<open>has_redlock\<close> say whether the two
  \<open>require\<close> calls succeed (without ioredis \<open>broker.fatal\<close> ends the process);
  \<open>pfx\<close> is the prefix that \<open>super.init\<close> (the base cacher, not part of these
  sources) has set. \<open>!this.opts.cluster.nodes\<close> is true of a missing list and false of
  every array, the empty one included. Of the Redlock settings only the retry count is
  kept: \<open>_.omit(opts.redlock, ['clients'])\<close> for the blocking instance,
  \<open>{retryCount: 0}\<close> for the non-blocking one.
\<close>

definition init :: "bool \<Rightarrow> bool \<Rightarrow> string \<Rightarrow> opts \<Rightarrow> init_outcome" where
  "init has_ioredis has_redlock pfx os =
     (if \<not> has_ioredis then
        \<lparr>constructed = [], monitoring = False, init_logged = [], made = Inl fatal_ioredis\<rparr>
      else
        (case (case cluster os of
                 Some co \<Rightarrow>
                   (case nodes co of
                      None \<Rightarrow> Inl no_connection_details
                    | Some ns \<Rightarrow> Inr (Info ''Setting Redis.Cluster Cacher'', Cluster ns (options co)))
               | None \<Rightarrow> Inr (Info ''Setting Redis Cacher'', Redis (redis os))) of
           Inl e \<Rightarrow> \<lparr>constructed = [], monitoring = False, init_logged = [], made = Inl e\<rparr>
         | Inr (line, cl) \<Rightarrow>
             (let redlockClients =
                    (case (case opt_redlock os of Some r \<Rightarrow> clients r | None \<Rightarrow> None) of
                       Some cs \<Rightarrow> cs
                     | None \<Rightarrow> [cl])
              in \<lparr>constructed = [cl],
                   monitoring = monitor os,
                   init_logged = [line]
                     @ (if has_redlock then []
                        else [Warn ''The 'redlock' package is missing. If you want to enable cache lock, please install it with 'npm install redlock --save' command.''])
                     @ [Debug (''Redis Cacher created. Prefix: '' @ pfx)],
                   made = Inr \<lparr>prefix = pfx, copts = os, client = cl,
                     redlock =
                       (if has_redlock
                        then Some \<lparr>rl_clients = redlockClients,
                               rl_retryCount = (case opt_redlock os of Some r \<Rightarrow> retryCount r | None \<Rightarrow> None)\<rparr>
                        else None),
                     redlockNonBlocking =
                       (if has_redlock
                        then Some \<lparr>rl_clients = redlockClients, rl_retryCount = Some 0\<rparr>
                        else None)\<rparr>\<rparr>)))"

section \<open>get, set, getWithTTL\<close>

text \<open>
  \<open>get(key)\<close>. \<open>parse\<close> is \<open>JSON.parse\<close> (\<open>Inl\<close> when it throws), \<open>reply\<close>
  is how \<open>client.get\<close> settles: a rejection, \<open>null\<close> (\<open>None\<close>) or a string.
  \<open>if (data)\<close> is false of \<open>null\<close> and of the empty string.
\<close>

definition get :: "(string \<Rightarrow> err + json) \<Rightarrow> cacher \<Rightarrow> string \<Rightarrow> err + string option \<Rightarrow> json outcome" where
  "get parse c key reply =
     (let rq = [GET (prefix c @ key)]; l0 = [Debug (''GET '' @ key)] in
      case reply of
        Inl e \<Rightarrow> \<lparr>sent = rq, logged = l0, answer = Inl e\<rparr>
      | Inr None \<Rightarrow> \<lparr>sent = rq, logged = l0, answer = Inr JNull\<rparr>
      | Inr (Some d) \<Rightarrow>
          (if d = [] then \<lparr>sent = rq, logged = l0, answer = Inr JNull\<rparr>
           else (case parse d of
                   Inr v \<Rightarrow> \<lparr>sent = rq, logged = l0 @ [Debug (''FOUND '' @ key)], answer = Inr v\<rparr>
                 | Inl e \<Rightarrow> \<lparr>sent = rq,
                      logged = l0 @ [Debug (''FOUND '' @ key), Error ''Redis result parse error.''],
                      answer = Inr JNull\<rparr>)))"

text \<open>
  \<open>set(key, data, ttl)\<close>. \<open>stringify\<close> is \<open>JSON.stringify\<close> (\<open>Inl\<close> when it
  throws, which \<open>set\<close> does not catch); \<open>reply\<close> is how the write settles, and
  \<open>set\<close> returns that promise as it is.
\<close>

definition set_op ::
  "('v \<Rightarrow> err + string) \<Rightarrow> cacher \<Rightarrow> string \<Rightarrow> 'v \<Rightarrow> num_arg \<Rightarrow> err + string \<Rightarrow> string outcome" where
  "set_op stringify c key v t reply =
     (case stringify v of
        Inl e \<Rightarrow> \<lparr>sent = [], logged = [], answer = Inl e\<rparr>
      | Inr d \<Rightarrow>
          (let t' = (if eq_null t then opt_ttl (copts c) else t) in
           \<lparr>sent = (case t' of
                      Num n \<Rightarrow> (if n \<noteq> 0 then [SETEX (prefix c @ key) n d]
                                else [SET (prefix c @ key) d])
                    | _ \<Rightarrow> [SET (prefix c @ key) d]),
             logged = [Debug (''SET '' @ key)],
             answer = reply\<rparr>))"

text \<open>
  \<open>getWithTTL(key)\<close>. \<open>reply\<close> is how \<open>exec()\<close> of the pipeline settles: a
  rejection, or the two pairs \<open>[err0, data]\<close> and \<open>[err1, ttl]\<close>. The result keeps
  \<open>data\<close> as it is when \<open>if (data)\<close> is false: null stays null and the empty string
  stays the empty string.
\<close>

record data_ttl =
  data :: json
  ttl :: "int option"

definition getWithTTL ::
  "(string \<Rightarrow> err + json) \<Rightarrow> cacher \<Rightarrow> string
     \<Rightarrow> err + ((err option \<times> string option) \<times> (err option \<times> int option)) \<Rightarrow> data_ttl outcome" where
  "getWithTTL parse c key reply =
     (let rq = [PIPELINE [GET (prefix c @ key), TTL (prefix c @ key)]] in
      case reply of
        Inl e \<Rightarrow> \<lparr>sent = rq, logged = [], answer = Inl e\<rparr>
      | Inr ((err0, dat), (err1, t1)) \<Rightarrow>
          (case err0 of
             Some e0 \<Rightarrow> \<lparr>sent = rq, logged = [], answer = Inl e0\<rparr>
           | None \<Rightarrow>
               (case err1 of
                  Some e1 \<Rightarrow> \<lparr>sent = rq, logged = [], answer = Inl e1\<rparr>
                | None \<Rightarrow>
                    (case dat of
                       None \<Rightarrow> \<lparr>sent = rq, logged = [], answer = Inr \<lparr>data = JNull, ttl = t1\<rparr>\<rparr>
                     | Some d \<Rightarrow>
                         (if d = [] then
                            \<lparr>sent = rq, logged = [], answer = Inr \<lparr>data = JStr [], ttl = t1\<rparr>\<rparr>
                          else
                            (case parse d of
                               Inr v \<Rightarrow> \<lparr>sent = rq, logged = [Debug (''FOUND '' @ key)],
                                          answer = Inr \<lparr>data = v, ttl = t1\<rparr>\<rparr>
                             | Inl e \<Rightarrow> \<lparr>sent = rq,
                                          logged = [Debug (''FOUND '' @ key),
                                                    Error ''Redis result parse error.''],
                                          answer = Inr \<lparr>data = JNull, ttl = t1\<rparr>\<rparr>))))))"

section \<open>lock, tryLock\<close>

text \<open>
  A lock as Redlock grants it, on a resource for a duration, and the request that the
  release closure \<open>() => lock.unlock()\<close> makes when it is called.
\<close>

record lock_handle =
  resource :: string
  duration :: num_arg

datatype lock_request = Unlock lock_handle

definition lock_error :: err where
  "lock_error = \<lparr>err_class = LockError, message = ''Exceeded attempts to lock the resource'',
     pattern = None\<rparr>"

text \<open>
  Modelled from the spec: the acquisition loop of the Lock Coordinator (the redlock
  package, which is not part of these sources). An instance tries to reach quorum, and
  after a failed try it tries again while its retry count allows, so an instance with
  retry count \<open>r\<close> makes at most \<open>r + 1\<close> tries. \<open>quorum k\<close> says whether try number
  \<open>k\<close> (from 0) reaches quorum; \<open>acquire\<close> returns the number of tries made and
  whether the last one reached quorum. \<open>dflt\<close> is the retry count of an instance that
  was given none.
\<close>

fun acquire :: "(nat \<Rightarrow> bool) \<Rightarrow> nat \<Rightarrow> nat \<Rightarrow> nat \<times> bool" where
  "acquire quorum k 0 = (Suc k, quorum k)"
| "acquire quorum k (Suc r) = (if quorum k then (Suc k, True) else acquire quorum (Suc k) r)"

text \<open>
  Modelled from the spec: \<open>lock(resource, ttl)\<close> of a Redlock instance (the redlock
  package again). It runs the loop with the instance's retry count and grants a lock on
  the resource for the duration, or fails with a LockError.
\<close>

definition redlock_lock ::
  "nat \<Rightarrow> (nat \<Rightarrow> bool) \<Rightarrow> redlock \<Rightarrow> string \<Rightarrow> num_arg \<Rightarrow> nat \<times> (err + lock_handle)" where
  "redlock_lock dflt quorum rl res t =
     (case acquire quorum 0 (case rl_retryCount rl of Some r \<Rightarrow> r | None \<Rightarrow> dflt) of
        (n, ok) \<Rightarrow> (n, if ok then Inr \<lparr>resource = res, duration = t\<rparr> else Inl lock_error))"

text \<open>
  What a call of \<open>lock\<close> or \<open>tryLock\<close> does: the call it makes on a Redlock instance
  (instance, resource, ttl), the tries that instance makes, and the release closure it
  resolves with or the error. Without the redlock package the instance is undefined and
  the call throws a TypeError.
\<close>

record lock_outcome =
  asked :: "(redlock \<times> string \<times> num_arg) option"
  attempts :: nat
  granted :: "err + (unit \<Rightarrow> lock_request)"

definition no_redlock :: err where
  "no_redlock = \<lparr>err_class = TypeError, message = ''Cannot read property 'lock' of undefined'',
     pattern = None\<rparr>"

text \<open>\<open>lock(key, ttl = 15000)\<close>: the default applies to an omitted ttl only.\<close>

definition lock :: "nat \<Rightarrow> (nat \<Rightarrow> bool) \<Rightarrow> cacher \<Rightarrow> string \<Rightarrow> num_arg \<Rightarrow> lock_outcome" where
  "lock dflt quorum c key t =
     (let t' = (if t = Undefined then Num 15000 else t);
          k = prefix c @ key @ ''-lock''
      in case redlock c of
           None \<Rightarrow> \<lparr>asked = None, attempts = 0, granted = Inl no_redlock\<rparr>
         | Some rl \<Rightarrow>
             (case redlock_lock dflt quorum rl k t' of
                (n, r) \<Rightarrow> \<lparr>asked = Some (rl, k, t'), attempts = n,
                            granted = (case r of Inl e \<Rightarrow> Inl e | Inr lk \<Rightarrow> Inr (\<lambda>u. Unlock lk))\<rparr>))"

text \<open>\<open>tryLock(key, ttl = 15000)\<close>: the same on the non-blocking instance.\<close>

definition tryLock :: "nat \<Rightarrow> (nat \<Rightarrow> bool) \<Rightarrow> cacher \<Rightarrow> string \<Rightarrow> num_arg \<Rightarrow> lock_outcome" where
  "tryLock dflt quorum c key t =
     (let t' = (if t = Undefined then Num 15000 else t);
          k = prefix c @ key @ ''-lock''
      in case redlockNonBlocking c of
           None \<Rightarrow> \<lparr>asked = None, attempts = 0, granted = Inl no_redlock\<rparr>
         | Some rl \<Rightarrow>
             (case redlock_lock dflt quorum rl k t' of
                (n, r) \<Rightarrow> \<lparr>asked = Some (rl, k, t'), attempts = n,
                            granted = (case r of Inl e \<Rightarrow> Inl e | Inr lk \<Rightarrow> Inr (\<lambda>u. Unlock lk))\<rparr>))"

section \<open>The scan-and-delete engine\<close>

text \<open>
  \<open>_nodeScanDel(node, pattern)\<close> opens a scan stream on the node and registers three
  handlers; what happens afterwards is decided by the events that reach them. The events:
  the stream emits a batch of keys, the oldest batch delete in flight is acknowledged or
  fails, the stream emits an error, the stream ends.
\<close>

datatype event = Data "string list" | DelOk | DelFail err | StreamError err | End

datatype promise = Pending | Resolved | Rejected err

text \<open>
  The state of one \<open>_nodeScanDel\<close> call: the arguments of \<open>scanStream\<close>, whether the
  stream is flowing (not paused), the batch deletes sent and not yet answered, every batch
  delete sent so far, the console lines, and the promise the call returned.
\<close>

record scan =
  match :: string
  count :: nat
  flowing :: bool
  inflight :: "string list list"
  dels :: "string list list"
  console :: "string list"
  settled :: promise

definition init_scan :: "string \<Rightarrow> scan" where
  "init_scan pat = \<lparr>match = pat, count = 100, flowing = True, inflight = [], dels = [],
     console = [], settled = Pending\<rparr>"

text \<open>\<open>resolve\<close> and \<open>reject\<close> settle a promise once; later calls change nothing.\<close>

definition settle :: "promise \<Rightarrow> scan \<Rightarrow> scan" where
  "settle p s = (if settled s = Pending then s\<lparr>settled := p\<rparr> else s)"

text \<open>
  The handlers. On a non-empty batch: \<open>stream.pause()\<close>, then \<open>node.del(keys)\<close>;
  its \<open>then\<close> resumes the stream, its \<open>catch\<close> writes the pattern into the error
  and rejects. The stream's error handler rejects with the error as it came.
\<close>

fun handle :: "event \<Rightarrow> scan \<Rightarrow> scan" where
  "handle (Data ks) s =
     (if ks = [] then s
      else s\<lparr>flowing := False, inflight := inflight s @ [ks], dels := dels s @ [ks]\<rparr>)"
| "handle DelOk s = s\<lparr>inflight := tl (inflight s), flowing := True\<rparr>"
| "handle (DelFail e) s =
     settle (Rejected (e\<lparr>pattern := Some (match s)\<rparr>)) (s\<lparr>inflight := tl (inflight s)\<rparr>)"
| "handle (StreamError e) s =
     settle (Rejected e) (s\<lparr>console := console s @ [''Error occured while deleting keys from node'']\<rparr>)"
| "handle End s =
     settle Resolved (s\<lparr>console := console s @ [''End deleting keys from node'']\<rparr>)"

definition nodeScanDel :: "string \<Rightarrow> event list \<Rightarrow> scan" where
  "nodeScanDel pat evs = foldl (\<lambda>s ev. handle ev s) (init_scan pat) evs"

text \<open>
  What the stream and the node can do in a state: a paused stream emits no batch, and a
  delete is answered only while one is in flight. Errors and the end are not restricted.
\<close>

fun enabled :: "event \<Rightarrow> scan \<Rightarrow> bool" where
  "enabled (Data ks) s = flowing s"
| "enabled DelOk s = (inflight s \<noteq> [])"
| "enabled (DelFail e) s = (inflight s \<noteq> [])"
| "enabled (StreamError e) s = True"
| "enabled End s = True"

fun feasible :: "event list \<Rightarrow> scan \<Rightarrow> bool" where
  "feasible [] s = True"
| "feasible (ev # evs) s = (enabled ev s \<and> feasible evs (handle ev s))"

text \<open>
  \<open>_clusterScanDel(pattern)\<close>: one \<open>_nodeScanDel\<close> per node of \<open>client.nodes()\<close>,
  all started before any event arrives, joined by \<open>Promise.all\<close>: it resolves when all
  have resolved (at once, of no promises) and rejects with the first rejection. Events
  carry the index of the node they belong to.
\<close>

record fanout =
  scans :: "scan list"
  joined :: promise

definition fanout_start :: "nat \<Rightarrow> string \<Rightarrow> fanout" where
  "fanout_start n pat =
     \<lparr>scans = map (\<lambda>node. init_scan pat) [0..<n],
      joined = (if n = 0 then Resolved else Pending)\<rparr>"

definition deliver :: "fanout \<Rightarrow> nat \<times> event \<Rightarrow> fanout" where
  "deliver f iev =
     (case iev of (i, ev) \<Rightarrow>
        if i < length (scans f) then
          (let s' = handle ev (scans f ! i); ss = (scans f)[i := s'] in
           \<lparr>scans = ss,
            joined = (case joined f of
                        Pending \<Rightarrow>
                          (case settled s' of
                             Rejected e \<Rightarrow> Rejected e
                           | _ \<Rightarrow> if list_all (\<lambda>s. settled s = Resolved) ss then Resolved
                                  else Pending)
                      | p \<Rightarrow> p)\<rparr>)
        else f)"

definition clusterScanDel :: "nat \<Rightarrow> string \<Rightarrow> (nat \<times> event) list \<Rightarrow> fanout" where
  "clusterScanDel n pat tr = foldl deliver (fanout_start n pat) tr"

text \<open>The events of one node, in the order of time.\<close>

definition node_events :: "nat \<Rightarrow> (nat \<times> event) list \<Rightarrow> event list" where
  "node_events i tr = map snd (filter (\<lambda>iev. fst iev = i) tr)"

text \<open>
  The world of one \<open>_scanDel\<close> call: how many nodes \<open>client.nodes()\<close> lists and the
  events that follow, in the order of time. On a single client the events of index 0 are
  its own.
\<close>

record scan_env =
  live_nodes :: nat
  events :: "(nat \<times> event) list"

text \<open>
  A promise chain is run against the journal of the \<open>_scanDel\<close> calls made so far (the
  scans each call started, as the events left them) and returns how it settles and the
  journal then. \<open>env k\<close> is the world of call number \<open>k\<close>.
\<close>

type_synonym journal = "scan list list"

type_synonym chain = "journal \<Rightarrow> promise \<times> journal"

definition Promise_resolve :: chain where
  "Promise_resolve j = (Resolved, j)"

text \<open>\<open>chain.then(() => f)\<close>: \<open>f\<close> runs once the chain has resolved, and only then.\<close>

definition then_do :: "chain \<Rightarrow> chain \<Rightarrow> chain" where
  "then_do ch f j =
     (case ch j of (p, j') \<Rightarrow> (case p of Resolved \<Rightarrow> f j' | _ \<Rightarrow> (p, j')))"

definition scanDel :: "client \<Rightarrow> (nat \<Rightarrow> scan_env) \<Rightarrow> string \<Rightarrow> chain" where
  "scanDel cl env pat j =
     (let w = env (length j) in
      if is_cluster cl then
        (let f = clusterScanDel (live_nodes w) pat (events w) in (joined f, j @ [scans f]))
      else
        (let s = nodeScanDel pat (node_events 0 (events w))
         in (settled s, j @ [[s]])))"

definition sequentialPromises :: "client \<Rightarrow> (nat \<Rightarrow> scan_env) \<Rightarrow> string list \<Rightarrow> chain" where
  "sequentialPromises cl env elements =
     foldl (\<lambda>ch element. then_do ch (scanDel cl env element)) Promise_resolve elements"

text \<open>
  Two readings of a list of events, for stating properties: the batches the stream
  emitted, and whether the stream reached its end before any stream error and any failed
  delete.
\<close>

fun batches :: "event list \<Rightarrow> string list list" where
  "batches [] = []"
| "batches (Data ks # evs) = ks # batches evs"
| "batches (ev # evs) = batches evs"

fun ends_first :: "event list \<Rightarrow> bool" where
  "ends_first [] = False"
| "ends_first (End # evs) = True"
| "ends_first (StreamError e # evs) = False"
| "ends_first (DelFail e # evs) = False"
| "ends_first (ev # evs) = ends_first evs"

text \<open>
  What \<open>Promise.all\<close> maintains: it has resolved exactly when every promise has, a
  rejection of it is the rejection of one of them, and it has rejected once one has.
\<close>

definition join_inv :: "fanout \<Rightarrow> bool" where
  "join_inv f =
     ((joined f = Resolved) = (\<forall>s\<in>set (scans f). settled s = Resolved)
      \<and> (\<forall>e. joined f = Rejected e \<longrightarrow> (\<exists>s\<in>set (scans f). settled s = Rejected e))
      \<and> ((\<exists>s\<in>set (scans f). \<exists>e. settled s = Rejected e) \<longrightarrow> (\<exists>e. joined f = Rejected e)))"

text \<open>An error of the connection, for concrete runs.\<close>

definition connection_lost :: err where
  "connection_lost = \<lparr>err_class = ReplyError, message = ''Connection is closed.'', pattern = None\<rparr>"

section \<open>clean\<close>

text \<open>\<open>match.replace(/\*\*/g, "*")\<close>: the matches are found from the left and do not overlap.\<close>

fun replace_stars :: "string \<Rightarrow> string" where
  "replace_stars (a # b # rest) =
     (if a = CHR ''*'' \<and> b = CHR ''*'' then CHR ''*'' # replace_stars rest
      else a # replace_stars (b # rest))"
| "replace_stars xs = xs"

text \<open>The argument of \<open>clean\<close>: omitted, one pattern, or an array of patterns.\<close>

datatype match_arg = Omitted | One string | Many "string list"

text \<open>An array in a template string is its elements joined by commas.\<close>

fun join_comma :: "string list \<Rightarrow> string" where
  "join_comma [] = []"
| "join_comma [x] = x"
| "join_comma (x # y # ys) = x @ '','' @ join_comma (y # ys)"

record clean_outcome =
  clean_logged :: "log list"
  cleaned :: promise
  swept :: journal

definition clean :: "cacher \<Rightarrow> (nat \<Rightarrow> scan_env) \<Rightarrow> match_arg \<Rightarrow> clean_outcome" where
  "clean c env m =
     (let cleaningPatterns = (case m of Omitted \<Rightarrow> [''*''] | One p \<Rightarrow> [p] | Many ps \<Rightarrow> ps);
          normalizedPatterns = map (\<lambda>m. prefix c @ replace_stars m) cleaningPatterns
      in case sequentialPromises (client c) env normalizedPatterns [] of
           (p, j) \<Rightarrow>
             \<lparr>clean_logged =
                [Debug (''CLEAN '' @ (case m of Omitted \<Rightarrow> ''*'' | One p \<Rightarrow> p | Many ps \<Rightarrow> join_comma ps))]
                @ (case p of
                     Rejected e \<Rightarrow>
                       [Error (''Redis 'scanDel' error. Pattern: ''
                               @ (case pattern e of None \<Rightarrow> ''undefined'' | Some q \<Rightarrow> q))]
                   | _ \<Rightarrow> []),
              cleaned = p,
              swept = j\<rparr>)"

text \<open>
  A fragment of \<open>JSON.parse\<close> for concrete runs: the three literals parse, every other
  text is a SyntaxError. Like \<open>JSON.parse\<close> it throws on the empty text.
\<close>

definition syntax_error :: err where
  "syntax_error = \<lparr>err_class = SyntaxError, message = ''Unexpected token'', pattern = None\<rparr>"

definition parse_literal :: "string \<Rightarrow> err + json" where
  "parse_literal s =
     (if s = ''null'' then Inr JNull
      else if s = ''true'' then Inr (JBool True)
      else if s = ''false'' then Inr (JBool False)
      else Inl syntax_error)"

text \<open>
  A fragment of \<open>JSON.stringify\<close> for concrete runs, on three kinds of value: null and
  the booleans are written out, and on an object that contains itself it throws.
\<close>

datatype literal = LNull | LBool bool | LCircular

definition circular_error :: err where
  "circular_error = \<lparr>err_class = TypeError, message = ''Converting circular structure to JSON'',
     pattern = None\<rparr>"

definition stringify_literal :: "literal \<Rightarrow> err + string" where
  "stringify_literal v =
     (case v of
        LNull \<Rightarrow> Inr ''null''
      | LBool b \<Rightarrow> Inr (if b then ''true'' else ''false'')
      | LCircular \<Rightarrow> Inl circular_error)"

text \<open>A single-node configuration and the cacher \<open>init\<close> makes of it, for concrete runs.\<close>

definition single_opts :: opts where
  "single_opts = \<lparr>opt_ttl = Undefined, cluster = None, redis = ''redis://localhost:6379'',
     opt_redlock = None, monitor = False\<rparr>"

definition mol :: cacher where
  "mol = \<lparr>prefix = ''MOL-'', copts = single_opts, client = Redis ''redis://localhost:6379'',
     redlock = Some \<lparr>rl_clients = [Redis ''redis://localhost:6379''], rl_retryCount = None\<rparr>,
     redlockNonBlocking =
       Some \<lparr>rl_clients = [Redis ''redis://localhost:6379''], rl_retryCount = Some 0\<rparr>\<rparr>"

section \<open>Theorems\<close>

text \<open>
  C1, as stated: a miss gives null; a value that is present and fails to deserialize
  is logged and gives null. The second part fails at the empty string: it is present
  (a key holding \<open>""\<close>), \<open>JSON.parse\<close> throws on it, and \<open>get\<close> returns null without
  trying to parse it and without logging.
\<close>

theorem get_empty_value_counterexample:
  "parse_literal [] = Inl syntax_error
   \<and> answer (get parse_literal mol ''k'' (Inr (Some []))) = Inr JNull
   \<and> Error ''Redis result parse error.'' \<notin> set (logged (get parse_literal mol ''k'' (Inr (Some []))))"
  by (simp add: get_def parse_literal_def)

text \<open>
  C1, amended: \<open>get\<close> sends one read of the namespaced key; a miss gives null; a
  non-empty value that fails to deserialize is logged and gives null; an empty value
  gives null with no parse error logged; whenever the read itself succeeds \<open>get\<close>
  resolves, so no deserialization failure is ever propagated.
\<close>

theorem get_lenient_read:
  "sent (get parse c key reply) = [GET (prefix c @ key)]
   \<and> answer (get parse c key (Inr None)) = Inr JNull
   \<and> (d \<noteq> [] \<and> parse d = Inl e \<longrightarrow>
        answer (get parse c key (Inr (Some d))) = Inr JNull
        \<and> Error ''Redis result parse error.'' \<in> set (logged (get parse c key (Inr (Some d)))))
   \<and> (answer (get parse c key (Inr (Some []))) = Inr JNull
        \<and> logged (get parse c key (Inr (Some []))) = [Debug (''GET '' @ key)])
   \<and> (d \<noteq> [] \<and> parse d = Inr v \<longrightarrow> answer (get parse c key (Inr (Some d))) = Inr v)
   \<and> (\<exists>v. answer (get parse c key (Inr r)) = Inr v)
   \<and> (\<forall>e'. answer (get parse c key reply) = Inl e' \<longrightarrow> reply = Inl e')"
  by (auto simp: get_def Let_def split: sum.splits option.splits)

theorem get_lenient_read_witness:
  "''{oops'' \<noteq> [] \<and> parse_literal ''{oops'' = Inl syntax_error
   \<and> answer (get parse_literal mol ''k'' (Inr (Some ''{oops''))) = Inr JNull
   \<and> Error ''Redis result parse error.'' \<in> set (logged (get parse_literal mol ''k'' (Inr (Some ''{oops''))))
   \<and> parse_literal ''true'' = Inr (JBool True)
   \<and> answer (get parse_literal mol ''k'' (Inr (Some ''true''))) = Inr (JBool True)
   \<and> answer (get parse_literal mol ''k'' (Inl connection_lost)) = Inl connection_lost"
proof -
  have a: "parse_literal ''{oops'' = Inl syntax_error" and b: "parse_literal ''true'' = Inr (JBool True)"
    by (simp_all add: parse_literal_def)
  have c: "answer (get parse_literal mol ''k'' (Inl connection_lost)) = Inl connection_lost"
    by (simp add: get_def)
  from get_lenient_read [of parse_literal mol "''k''" "Inl connection_lost" "''{oops''" syntax_error
      "JBool True" "Some ''{oops''"] a
  have d: "answer (get parse_literal mol ''k'' (Inr (Some ''{oops''))) = Inr JNull
      \<and> Error ''Redis result parse error.'' \<in> set (logged (get parse_literal mol ''k'' (Inr (Some ''{oops''))))"
    by simp
  from get_lenient_read [of parse_literal mol "''k''" "Inl connection_lost" "''true''" syntax_error
      "JBool True" "Some ''true''"] b
  have e: "answer (get parse_literal mol ''k'' (Inr (Some ''true''))) = Inr (JBool True)"
    by simp
  from a b c d e show ?thesis by simp
qed

text \<open>
  C5: \<open>set\<close> serializes the value; a ttl that is omitted or null falls back to the
  configured default; a falsy effective ttl (unset, null or 0) writes the namespaced key
  with SET and no expiry; any other ttl writes with SETEX and that many seconds. A ttl of
  0 that is passed explicitly is not replaced by the default. A serialization error is
  thrown and nothing is sent.
\<close>

theorem set_ttl_policy:
  "(stringify v = Inl e \<longrightarrow>
      sent (set_op stringify c key v t reply) = [] \<and> answer (set_op stringify c key v t reply) = Inl e)
   \<and> (stringify v = Inr d \<longrightarrow>
      answer (set_op stringify c key v t reply) = reply
      \<and> (\<not> eq_null t \<and> \<not> truthy t \<longrightarrow>
            sent (set_op stringify c key v t reply) = [SET (prefix c @ key) d])
      \<and> (eq_null t \<and> \<not> truthy (opt_ttl (copts c)) \<longrightarrow>
            sent (set_op stringify c key v t reply) = [SET (prefix c @ key) d])
      \<and> (\<forall>n. n \<noteq> 0 \<and> (t = Num n \<or> eq_null t \<and> opt_ttl (copts c) = Num n) \<longrightarrow>
            sent (set_op stringify c key v t reply) = [SETEX (prefix c @ key) n d]))"
  by (cases t; cases "opt_ttl (copts c)") (auto simp: set_op_def Let_def split: sum.splits)

theorem set_ttl_policy_witness:
  "stringify_literal LNull = Inr ''null''
   \<and> eq_null Null \<and> opt_ttl (copts (mol\<lparr>copts := single_opts\<lparr>opt_ttl := Num 60\<rparr>\<rparr>)) = Num 60
   \<and> sent (set_op stringify_literal (mol\<lparr>copts := single_opts\<lparr>opt_ttl := Num 60\<rparr>\<rparr>) ''k'' LNull Null (Inr ''OK''))
     = [SETEX ''MOL-k'' 60 ''null'']
   \<and> \<not> eq_null (Num 0) \<and> \<not> truthy (Num 0)
   \<and> sent (set_op stringify_literal (mol\<lparr>copts := single_opts\<lparr>opt_ttl := Num 60\<rparr>\<rparr>) ''k'' LNull (Num 0) (Inr ''OK''))
     = [SET ''MOL-k'' ''null'']
   \<and> eq_null Undefined \<and> \<not> truthy (opt_ttl (copts mol))
   \<and> sent (set_op stringify_literal mol ''k'' (LBool True) Undefined (Inr ''OK'')) = [SET ''MOL-k'' ''true'']
   \<and> stringify_literal LCircular = Inl circular_error
   \<and> sent (set_op stringify_literal mol ''k'' LCircular (Num 5) (Inr ''OK'')) = []
   \<and> answer (set_op stringify_literal mol ''k'' LCircular (Num 5) (Inr ''OK'')) = Inl circular_error"
proof -
  let ?c = "mol\<lparr>copts := single_opts\<lparr>opt_ttl := Num 60\<rparr>\<rparr>"
  have h: "stringify_literal LNull = Inr ''null''" "stringify_literal (LBool True) = Inr ''true''"
      "stringify_literal LCircular = Inl circular_error"
    by (simp_all add: stringify_literal_def)
  have p: "prefix ?c = ''MOL-''" "prefix mol = ''MOL-''" "opt_ttl (copts ?c) = Num 60"
      "opt_ttl (copts mol) = Undefined"
    by (simp_all add: mol_def single_opts_def)
  from set_ttl_policy [of stringify_literal LNull circular_error ?c "''k''" Null "Inr ''OK''" "''null''"] h p
  have a: "sent (set_op stringify_literal ?c ''k'' LNull Null (Inr ''OK'')) = [SETEX ''MOL-k'' 60 ''null'']"
    by simp
  from set_ttl_policy [of stringify_literal LNull circular_error ?c "''k''" "Num 0" "Inr ''OK''" "''null''"] h p
  have b: "sent (set_op stringify_literal ?c ''k'' LNull (Num 0) (Inr ''OK'')) = [SET ''MOL-k'' ''null'']"
    by simp
  from set_ttl_policy [of stringify_literal "LBool True" circular_error mol "''k''" Undefined "Inr ''OK''" "''true''"] h p
  have c: "sent (set_op stringify_literal mol ''k'' (LBool True) Undefined (Inr ''OK'')) = [SET ''MOL-k'' ''true'']"
    by simp
  from set_ttl_policy [of stringify_literal LCircular circular_error mol "''k''" "Num 5" "Inr ''OK''" "''null''"] h
  have d: "sent (set_op stringify_literal mol ''k'' LCircular (Num 5) (Inr ''OK'')) = []
      \<and> answer (set_op stringify_literal mol ''k'' LCircular (Num 5) (Inr ''OK'')) = Inl circular_error"
    by simp
  from a b c d h p show ?thesis by simp
qed

text \<open>
  What \<open>getWithTTL\<close> does, case by case: it sends the read of the value and the read
  of the TTL of the namespaced key as one pipeline; an error in the value's pair rejects
  with that error, otherwise an error in the TTL's pair rejects with that error; otherwise
  it resolves with the value and the TTL, where a non-empty value that cannot be parsed is
  logged and becomes null, an absent value is null, and an empty value stays the empty
  string.
\<close>

lemma getWithTTL_cases:
  "sent (getWithTTL parse c key reply) = [PIPELINE [GET (prefix c @ key), TTL (prefix c @ key)]]
   \<and> answer (getWithTTL parse c key (Inr ((Some e0, dat), r1))) = Inl e0
   \<and> answer (getWithTTL parse c key (Inr ((None, dat), (Some e1, t1)))) = Inl e1
   \<and> answer (getWithTTL parse c key (Inr ((None, None), (None, t1)))) = Inr \<lparr>data = JNull, ttl = t1\<rparr>
   \<and> answer (getWithTTL parse c key (Inr ((None, Some []), (None, t1)))) = Inr \<lparr>data = JStr [], ttl = t1\<rparr>
   \<and> (d \<noteq> [] \<and> parse d = Inr v \<longrightarrow>
        answer (getWithTTL parse c key (Inr ((None, Some d), (None, t1)))) = Inr \<lparr>data = v, ttl = t1\<rparr>)
   \<and> (d \<noteq> [] \<and> parse d = Inl e \<longrightarrow>
        answer (getWithTTL parse c key (Inr ((None, Some d), (None, t1)))) = Inr \<lparr>data = JNull, ttl = t1\<rparr>
        \<and> Error ''Redis result parse error.''
            \<in> set (logged (getWithTTL parse c key (Inr ((None, Some d), (None, t1))))))"
  by (auto simp: getWithTTL_def Let_def split: sum.splits option.splits prod.splits)

text \<open>
  C6, evaluated where the key holds the empty string and has 10 seconds to live: the
  value is present and \<open>JSON.parse\<close> throws on it, \<open>get\<close> gives null for it, and
  \<open>getWithTTL\<close> resolves with the empty string as it is, not with null. The round trip
  is one pipeline, and the TTL is returned.
\<close>

theorem getWithTTL_empty_value:
  "parse_literal [] = Inl syntax_error
   \<and> answer (get parse_literal mol ''k'' (Inr (Some []))) = Inr JNull
   \<and> answer (getWithTTL parse_literal mol ''k'' (Inr ((None, Some []), (None, Some 10))))
       = Inr \<lparr>data = JStr [], ttl = Some 10\<rparr>
   \<and> JStr [] \<noteq> JNull
   \<and> sent (getWithTTL parse_literal mol ''k'' (Inr ((None, Some []), (None, Some 10))))
       = [PIPELINE [GET ''MOL-k'', TTL ''MOL-k'']]"
  by (simp add: getWithTTL_def get_def parse_literal_def mol_def)

text \<open>
  C9: with a cluster option that has no \<open>nodes\<close>, \<open>init\<close> throws the
  BrokerOptionsError before it constructs any client, logs anything or starts monitoring.
\<close>

theorem init_cluster_without_nodes:
  "cluster os = Some co \<and> nodes co = None \<longrightarrow>
     constructed (init has_ioredis has_redlock pfx os) = []
     \<and> \<not> monitoring (init has_ioredis has_redlock pfx os)
     \<and> (\<exists>e. made (init has_ioredis has_redlock pfx os) = Inl e)
     \<and> (has_ioredis \<longrightarrow>
          made (init has_ioredis has_redlock pfx os) = Inl no_connection_details
          \<and> err_class no_connection_details = BrokerOptionsError)"
  by (simp add: init_def no_connection_details_def)

theorem init_cluster_without_nodes_witness:
  "made (init True True ''MOL-''
      (single_opts\<lparr>cluster := Some \<lparr>nodes = None, options = ''{}''\<rparr>, monitor := True\<rparr>))
     = Inl no_connection_details
   \<and> constructed (init True True ''MOL-''
      (single_opts\<lparr>cluster := Some \<lparr>nodes = None, options = ''{}''\<rparr>, monitor := True\<rparr>)) = []
   \<and> \<not> monitoring (init True True ''MOL-''
      (single_opts\<lparr>cluster := Some \<lparr>nodes = None, options = ''{}''\<rparr>, monitor := True\<rparr>))"
  using init_cluster_without_nodes [of "single_opts\<lparr>cluster := Some \<lparr>nodes = None, options = ''{}''\<rparr>, monitor := True\<rparr>"
          "\<lparr>nodes = None, options = ''{}''\<rparr>" True True "''MOL-''"]
  by simp

subsection \<open>The engine: lemmas\<close>

lemma handle_settled_mono: "settled s \<noteq> Pending \<Longrightarrow> settled (handle ev s) = settled s"
  by (cases ev) (auto simp: settle_def)

lemma handle_match: "match (handle ev s) = match s"
  by (cases ev) (auto simp: settle_def)

lemma run_match: "match (foldl (\<lambda>s ev. handle ev s) s evs) = match s"
  by (induction evs arbitrary: s) (simp_all add: handle_match)

lemma nodeScanDel_match: "match (nodeScanDel pat evs) = pat"
  by (simp add: nodeScanDel_def run_match init_scan_def)

lemma nodeScanDel_snoc: "nodeScanDel pat (evs @ [ev]) = handle ev (nodeScanDel pat evs)"
  by (simp add: nodeScanDel_def)

lemma run_settled_fixed:
  "settled s \<noteq> Pending \<Longrightarrow> settled (foldl (\<lambda>s ev. handle ev s) s evs) = settled s"
  by (induction evs arbitrary: s) (simp_all add: handle_settled_mono)

lemma run_resolved_iff:
  "settled s = Pending \<Longrightarrow>
   (settled (foldl (\<lambda>s ev. handle ev s) s evs) = Resolved) = ends_first evs"
proof (induction evs arbitrary: s)
  case Nil
  then show ?case by simp
next
  case (Cons ev evs)
  then show ?case
    by (cases ev) (simp_all add: run_settled_fixed settle_def)
qed

lemma nodeScanDel_resolved_iff:
  "(settled (nodeScanDel pat evs) = Resolved) = ends_first evs"
  by (simp add: nodeScanDel_def run_resolved_iff init_scan_def)

lemma node_events_snoc:
  "node_events i (tr @ [(k, ev)]) = (if k = i then node_events i tr @ [ev] else node_events i tr)"
  by (simp add: node_events_def)

lemma cluster_length: "length (scans (clusterScanDel n pat tr)) = n"
proof (induction tr rule: rev_induct)
  case Nil
  then show ?case by (simp add: clusterScanDel_def fanout_start_def)
next
  case (snoc x tr)
  then show ?case
    by (cases x) (simp add: clusterScanDel_def deliver_def Let_def)
qed

lemma cluster_nth:
  "i < n \<Longrightarrow> scans (clusterScanDel n pat tr) ! i = nodeScanDel pat (node_events i tr)"
proof (induction tr rule: rev_induct)
  case Nil
  then show ?case
    by (simp add: clusterScanDel_def fanout_start_def nodeScanDel_def node_events_def)
next
  case (snoc x tr)
  obtain k ev where x: "x = (k, ev)" by (cases x)
  have step: "clusterScanDel n pat (tr @ [(k, ev)]) = deliver (clusterScanDel n pat tr) (k, ev)"
    by (simp add: clusterScanDel_def)
  show ?case
  proof (cases "k < n")
    case True
    with snoc cluster_length [of n pat tr] show ?thesis
      by (auto simp: step x deliver_def Let_def node_events_snoc nodeScanDel_snoc nth_list_update)
  next
    case False
    with snoc cluster_length [of n pat tr] show ?thesis
      by (auto simp: step x deliver_def node_events_snoc)
  qed
qed

lemma cluster_scans:
  "scans (clusterScanDel n pat tr) = map (\<lambda>i. nodeScanDel pat (node_events i tr)) [0..<n]"
  by (rule nth_equalityI) (simp_all add: cluster_length cluster_nth)

lemma join_inv_start: "join_inv (fanout_start n pat)"
  by (auto simp: join_inv_def fanout_start_def init_scan_def)

lemma join_inv_deliver:
  assumes "join_inv f"
  shows "join_inv (deliver f x)"
proof -
  obtain i ev where x: "x = (i, ev)" by (cases x)
  show ?thesis
  proof (cases "i < length (scans f)")
    case False
    with assms show ?thesis by (simp add: deliver_def x)
  next
    case True
    define s' where "s' = handle ev (scans f ! i)"
    define ss where "ss = (scans f)[i := s']"
    have mem: "set ss \<subseteq> insert s' (set (scans f))"
      unfolding ss_def by (rule set_update_subset_insert)
    have s'in: "s' \<in> set ss"
      unfolding ss_def using True by (simp add: set_update_memI)
    have old: "t \<in> set (scans f) \<Longrightarrow> settled t \<noteq> Pending \<Longrightarrow> \<exists>u\<in>set ss. settled u = settled t" for t
    proof -
      assume t: "t \<in> set (scans f)" and st: "settled t \<noteq> Pending"
      then obtain k where k: "k < length (scans f)" "scans f ! k = t"
        by (auto simp: in_set_conv_nth)
      show ?thesis
      proof (cases "k = i")
        case True
        with k st have "settled s' = settled t"
          by (simp add: s'_def handle_settled_mono)
        with s'in show ?thesis by blast
      next
        case False
        with k have "ss ! k = t" "k < length ss" by (simp_all add: ss_def)
        then have "t \<in> set ss" by (metis nth_mem)
        then show ?thesis by blast
      qed
    qed
    have cur: "settled (scans f ! i) \<noteq> Pending \<Longrightarrow> settled s' = settled (scans f ! i)"
      by (simp add: s'_def handle_settled_mono)
    have ini: "scans f ! i \<in> set (scans f)" using True by simp
    have d: "deliver f x = \<lparr>scans = ss,
            joined = (case joined f of
                        Pending \<Rightarrow>
                          (case settled s' of
                             Rejected e \<Rightarrow> Rejected e
                           | _ \<Rightarrow> if list_all (\<lambda>s. settled s = Resolved) ss then Resolved
                                  else Pending)
                      | p \<Rightarrow> p)\<rparr>"
      unfolding s'_def ss_def using True by (simp add: deliver_def x Let_def)
    show ?thesis
    proof (cases "joined f")
      case Pending
      with assms have none: "\<forall>s\<in>set (scans f). \<forall>e. settled s \<noteq> Rejected e"
        by (auto simp: join_inv_def)
      show ?thesis
      proof (cases "settled s'")
        case (Rejected e)
        then have "settled s' \<noteq> Resolved" by simp
        with s'in have "\<exists>s\<in>set ss. settled s \<noteq> Resolved" by blast
        with Rejected Pending s'in show ?thesis
          by (auto simp: join_inv_def d)
      next
        case Resolved
        with Pending none mem s'in show ?thesis
          by (auto simp: join_inv_def d list_all_iff)
      next
        case Pending2: Pending
        with Pending none mem s'in show ?thesis
          by (auto simp: join_inv_def d list_all_iff)
      qed
    next
      case Resolved
      with assms have all: "\<forall>s\<in>set (scans f). settled s = Resolved"
        by (simp add: join_inv_def)
      with ini cur have "settled s' = Resolved" by auto
      with all mem have "\<forall>s\<in>set ss. settled s = Resolved" by auto
      with Resolved show ?thesis
        by (auto simp: join_inv_def d)
    next
      case (Rejected e)
      with assms obtain t where t: "t \<in> set (scans f)" "settled t = Rejected e"
        by (auto simp: join_inv_def)
      from old [OF t(1)] t(2) obtain u where u: "u \<in> set ss" "settled u = Rejected e" by auto
      then have "settled u \<noteq> Resolved" by simp
      with u have "\<exists>s\<in>set ss. settled s \<noteq> Resolved" by blast
      with u Rejected show ?thesis
        by (auto simp: join_inv_def d)
    qed
  qed
qed

lemma join_inv_cluster: "join_inv (clusterScanDel n pat tr)"
  by (induction tr rule: rev_induct)
     (simp_all add: clusterScanDel_def join_inv_start join_inv_deliver)

lemma then_do_resolve_left: "then_do Promise_resolve f = f"
  by (rule ext) (simp add: then_do_def Promise_resolve_def)

lemma then_do_resolve_right: "then_do ch Promise_resolve = ch"
  by (rule ext) (simp add: then_do_def Promise_resolve_def split: prod.splits promise.splits)

lemma then_do_assoc: "then_do (then_do ch f) g = then_do ch (then_do f g)"
  by (rule ext) (simp add: then_do_def split: prod.splits promise.splits)

lemma chain_from:
  "foldl (\<lambda>ch element. then_do ch (scanDel cl env element)) ch elements
   = then_do ch (sequentialPromises cl env elements)"
proof (induction elements rule: rev_induct)
  case Nil
  then show ?case by (simp add: sequentialPromises_def then_do_resolve_right)
next
  case (snoc x xs)
  then show ?case by (simp add: sequentialPromises_def then_do_assoc)
qed

lemma sequentialPromises_Nil: "sequentialPromises cl env [] j = (Resolved, j)"
  by (simp add: sequentialPromises_def Promise_resolve_def)

lemma sequentialPromises_Cons:
  "sequentialPromises cl env (x # xs) = then_do (scanDel cl env x) (sequentialPromises cl env xs)"
proof -
  have "sequentialPromises cl env (x # xs)
        = foldl (\<lambda>ch element. then_do ch (scanDel cl env element))
            (then_do Promise_resolve (scanDel cl env x)) xs"
    by (simp add: sequentialPromises_def)
  then show ?thesis by (simp add: chain_from then_do_resolve_left)
qed

lemma scanDel_journal:
  "\<exists>entry. snd (scanDel cl env pat j) = j @ [entry] \<and> (\<forall>s\<in>set entry. match s = pat)"
  by (auto simp: scanDel_def Let_def nodeScanDel_match cluster_scans)

lemma sequentialPromises_journal:
  "\<exists>new. snd (sequentialPromises cl env pats j) = j @ new
     \<and> list_all2 (\<lambda>q entry. \<forall>s\<in>set entry. match s = q) (take (length new) pats) new
     \<and> (fst (sequentialPromises cl env pats j) = Resolved \<longrightarrow> length new = length pats)"
proof (induction pats arbitrary: j)
  case Nil
  then show ?case by (simp add: sequentialPromises_Nil)
next
  case (Cons x xs)
  obtain p j1 where r: "scanDel cl env x j = (p, j1)" by (cases "scanDel cl env x j")
  from scanDel_journal [of cl env x j] r obtain entry where
    e: "j1 = j @ [entry]" "\<forall>s\<in>set entry. match s = x" by auto
  show ?case
  proof (cases "p = Resolved")
    case True
    from Cons.IH [of j1] obtain new where
      n: "snd (sequentialPromises cl env xs j1) = j1 @ new"
         "list_all2 (\<lambda>q entry. \<forall>s\<in>set entry. match s = q) (take (length new) xs) new"
         "fst (sequentialPromises cl env xs j1) = Resolved \<longrightarrow> length new = length xs"
      by blast
    have eq: "sequentialPromises cl env (x # xs) j = sequentialPromises cl env xs j1"
      using r True by (simp add: sequentialPromises_Cons then_do_def)
    show ?thesis
      by (rule exI [of _ "entry # new"]) (use n e eq in simp)
  next
    case False
    have eq: "sequentialPromises cl env (x # xs) j = (p, j1)"
      using r False by (simp add: sequentialPromises_Cons then_do_def split: promise.splits)
    show ?thesis
      by (rule exI [of _ "[entry]"]) (use e eq False in simp)
  qed
qed

lemma sequentialPromises_fail_fast:
  "fst (scanDel cl env x j) \<noteq> Resolved \<Longrightarrow>
   sequentialPromises cl env (x # xs) j = scanDel cl env x j"
  by (cases "scanDel cl env x j")
     (simp add: sequentialPromises_Cons then_do_def split: promise.splits)

lemma sequentialPromises_next:
  "scanDel cl env x j = (Resolved, j') \<Longrightarrow>
   sequentialPromises cl env (x # xs) j = sequentialPromises cl env xs j'"
  by (simp add: sequentialPromises_Cons then_do_def)

lemma nodeScanDel_rejection:
  "settled (nodeScanDel pat evs) = Rejected e \<Longrightarrow>
   StreamError e \<in> set evs \<or> (\<exists>e0. DelFail e0 \<in> set evs \<and> e = e0\<lparr>pattern := Some pat\<rparr>)"
proof (induction evs rule: rev_induct)
  case Nil
  then show ?case by (simp add: nodeScanDel_def init_scan_def)
next
  case (snoc ev evs)
  show ?case
  proof (cases "settled (nodeScanDel pat evs) = Pending")
    case False
    with snoc.prems have "settled (nodeScanDel pat evs) = Rejected e"
      by (simp add: nodeScanDel_snoc handle_settled_mono)
    with snoc.IH show ?thesis by auto
  next
    case True
    with snoc.prems show ?thesis
      by (cases ev) (auto simp: nodeScanDel_snoc settle_def nodeScanDel_match split: if_splits)
  qed
qed

lemma replace_stars_first:
  "CHR ''*'' \<notin> set u \<Longrightarrow> replace_stars (u @ ''**'' @ v) = u @ ''*'' @ replace_stars v"
proof (induction u)
  case Nil
  then show ?case by simp
next
  case (Cons a u)
  then show ?case by (cases u) auto
qed

lemma clean_One_Many: "clean c env (One q) = clean c env (Many [q])"
  by (simp add: clean_def)

lemma clean_Omitted: "clean c env Omitted = clean c env (One ''*'')"
  by (simp add: clean_def)

lemma backpressure_step:
  assumes "enabled ev s" "length (inflight s) \<le> 1" "flowing s \<longrightarrow> inflight s = []"
  shows "length (inflight (handle ev s)) \<le> 1 \<and> (flowing (handle ev s) \<longrightarrow> inflight (handle ev s) = [])"
proof (cases "inflight s")
  case Nil
  with assms show ?thesis by (cases ev) (auto simp: settle_def)
next
  case (Cons b bs)
  with assms have "bs = []" "\<not> flowing s" by auto
  with Cons assms show ?thesis by (cases ev) (auto simp: settle_def)
qed

lemma backpressure_run:
  "feasible evs s \<Longrightarrow> length (inflight s) \<le> 1 \<Longrightarrow> (flowing s \<longrightarrow> inflight s = []) \<Longrightarrow>
   length (inflight (foldl (\<lambda>s ev. handle ev s) s evs)) \<le> 1
   \<and> (flowing (foldl (\<lambda>s ev. handle ev s) s evs) \<longrightarrow> inflight (foldl (\<lambda>s ev. handle ev s) s evs) = [])"
proof (induction evs arbitrary: s)
  case Nil
  then show ?case by simp
next
  case (Cons ev evs)
  from Cons.prems have en: "enabled ev s" and fe: "feasible evs (handle ev s)" by simp_all
  from backpressure_step [OF en Cons.prems(2) Cons.prems(3)]
  have "length (inflight (handle ev s)) \<le> 1" "flowing (handle ev s) \<longrightarrow> inflight (handle ev s) = []"
    by simp_all
  from Cons.IH [OF fe this] show ?case by simp
qed

lemma feasible_take: "feasible evs s \<Longrightarrow> feasible (take n evs) s"
proof (induction evs arbitrary: s n)
  case Nil
  then show ?case by simp
next
  case (Cons ev evs)
  then show ?case by (cases n) simp_all
qed

lemma handle_dels:
  "dels (handle ev s) = dels s @ filter (\<lambda>ks. ks \<noteq> []) (batches [ev])"
  by (cases ev) (auto simp: settle_def)

lemma batches_append: "batches (xs @ ys) = batches xs @ batches ys"
  by (induction xs rule: batches.induct) simp_all

lemma run_dels:
  "dels (foldl (\<lambda>s ev. handle ev s) s evs) = dels s @ filter (\<lambda>ks. ks \<noteq> []) (batches evs)"
proof (induction evs arbitrary: s)
  case Nil
  then show ?case by simp
next
  case (Cons ev evs)
  have "batches (ev # evs) = batches [ev] @ batches evs"
    using batches_append [of "[ev]" evs] by simp
  with Cons.IH [of "handle ev s"] show ?case
    by (simp add: handle_dels)
qed

lemma resume_only_on_ack: "\<not> flowing s \<Longrightarrow> flowing (handle ev s) \<Longrightarrow> ev = DelOk"
  by (cases ev) (auto simp: settle_def split: if_splits)

lemma run_empty_batches:
  "foldl (\<lambda>s ev. handle ev s) s (replicate k (Data [])) = s"
  by (induction k) simp_all

lemma acquire_bounds: "Suc k \<le> fst (acquire q k r) \<and> fst (acquire q k r) \<le> Suc (k + r)"
proof (induction r arbitrary: k)
  case 0
  then show ?case by simp
next
  case (Suc r)
  from Suc [of "Suc k"] show ?case by simp
qed

lemma acquire_granted: "snd (acquire q k r) = (\<exists>i. k \<le> i \<and> i \<le> k + r \<and> q i)"
proof (induction r arbitrary: k)
  case 0
  then show ?case by (auto simp: le_antisym)
next
  case (Suc r)
  show ?case
  proof (cases "q k")
    case True
    then show ?thesis by auto
  next
    case False
    have "(\<exists>i. Suc k \<le> i \<and> i \<le> Suc k + r \<and> q i) = (\<exists>i. k \<le> i \<and> i \<le> k + Suc r \<and> q i)"
    proof
      assume "\<exists>i. Suc k \<le> i \<and> i \<le> Suc k + r \<and> q i"
      then obtain i where "Suc k \<le> i" "i \<le> Suc k + r" "q i" by blast
      then have "k \<le> i \<and> i \<le> k + Suc r \<and> q i" by simp
      then show "\<exists>i. k \<le> i \<and> i \<le> k + Suc r \<and> q i" by blast
    next
      assume "\<exists>i. k \<le> i \<and> i \<le> k + Suc r \<and> q i"
      then obtain i where i: "k \<le> i" "i \<le> k + Suc r" "q i" by blast
      with False have "i \<noteq> k" by auto
      with i have "Suc k \<le> i \<and> i \<le> Suc k + r \<and> q i" by simp
      then show "\<exists>i. Suc k \<le> i \<and> i \<le> Suc k + r \<and> q i" by blast
    qed
    with False Suc [of "Suc k"] show ?thesis by simp
  qed
qed

lemma acquire_stops_at_first:
  "snd (acquire q k r) \<Longrightarrow>
   q (fst (acquire q k r) - 1) \<and> (\<forall>i. k \<le> i \<and> i < fst (acquire q k r) - 1 \<longrightarrow> \<not> q i)"
proof (induction r arbitrary: k)
  case 0
  then show ?case by auto
next
  case (Suc r)
  show ?case
  proof (cases "q k")
    case True
    then show ?thesis by auto
  next
    case False
    with Suc.prems have s: "snd (acquire q (Suc k) r)" by simp
    from Suc.IH [OF s] have h: "q (fst (acquire q (Suc k) r) - 1)"
      and n: "\<And>i. Suc k \<le> i \<Longrightarrow> i < fst (acquire q (Suc k) r) - 1 \<Longrightarrow> \<not> q i"
      by simp_all
    have "\<not> q i" if "k \<le> i" "i < fst (acquire q (Suc k) r) - 1" for i
    proof (cases "i = k")
      case True
      with False show ?thesis by simp
    next
      case False
      with that have "Suc k \<le> i" by simp
      with that n show ?thesis by blast
    qed
    with h False show ?thesis by simp
  qed
qed

lemma acquire_exhausted: "\<not> snd (acquire q k r) \<Longrightarrow> fst (acquire q k r) = Suc (k + r)"
proof (induction r arbitrary: k)
  case 0
  then show ?case by simp
next
  case (Suc r)
  then show ?case by (cases "q k") simp_all
qed

subsection \<open>The engine and the locks: claims\<close>

text \<open>
  C2: in one \<open>_nodeScanDel\<close>, as long as the stream keeps its contract (no batch
  while paused, a delete answered only while in flight): at every time (after any \<open>n\<close>
  events) at most one batch delete is in flight, and while one is the stream is paused.
  The deletes sent are exactly the non-empty batches received, in order. A non-empty
  batch is sent for deletion and the stream paused in the same step; an empty batch
  changes nothing; the acknowledgement of the delete resumes the stream, and nothing else
  does. A scan that emits only empty batches and ends resolves with no delete sent.
\<close>

theorem nodeScanDel_backpressure:
  "(feasible evs (init_scan pat) \<longrightarrow>
      length (inflight (nodeScanDel pat (take n evs))) \<le> 1
      \<and> (inflight (nodeScanDel pat (take n evs)) \<noteq> [] \<longrightarrow> \<not> flowing (nodeScanDel pat (take n evs))))
   \<and> dels (nodeScanDel pat evs) = filter (\<lambda>ks. ks \<noteq> []) (batches evs)
   \<and> (ks \<noteq> [] \<longrightarrow>
        inflight (handle (Data ks) s) = inflight s @ [ks]
        \<and> dels (handle (Data ks) s) = dels s @ [ks]
        \<and> \<not> flowing (handle (Data ks) s))
   \<and> handle (Data []) s = s
   \<and> (s' = handle DelOk s \<longrightarrow> flowing s' \<and> inflight s' = tl (inflight s))
   \<and> (\<not> flowing s \<and> flowing (handle ev s) \<longrightarrow> ev = DelOk)
   \<and> settled (nodeScanDel pat (replicate k (Data []) @ [End])) = Resolved
   \<and> dels (nodeScanDel pat (replicate k (Data []) @ [End])) = []"
proof -
  have a: "feasible evs (init_scan pat) \<longrightarrow>
      length (inflight (nodeScanDel pat (take n evs))) \<le> 1
      \<and> (inflight (nodeScanDel pat (take n evs)) \<noteq> [] \<longrightarrow> \<not> flowing (nodeScanDel pat (take n evs)))"
  proof
    assume "feasible evs (init_scan pat)"
    then have "feasible (take n evs) (init_scan pat)" by (rule feasible_take)
    from backpressure_run [OF this] show "length (inflight (nodeScanDel pat (take n evs))) \<le> 1
      \<and> (inflight (nodeScanDel pat (take n evs)) \<noteq> [] \<longrightarrow> \<not> flowing (nodeScanDel pat (take n evs)))"
      by (auto simp: nodeScanDel_def init_scan_def)
  qed
  have b: "dels (nodeScanDel pat evs) = filter (\<lambda>ks. ks \<noteq> []) (batches evs)" for evs
    by (simp add: nodeScanDel_def run_dels init_scan_def)
  have c: "settled (nodeScanDel pat (replicate k (Data []) @ [End])) = Resolved"
    by (simp add: nodeScanDel_def run_empty_batches init_scan_def settle_def)
  have d: "batches (replicate k (Data []) @ [End]) = replicate k []"
    by (induction k) simp_all
  have e: "dels (nodeScanDel pat (replicate k (Data []) @ [End])) = []"
    by (simp add: b d)
  have f: "\<not> flowing s \<and> flowing (handle ev s) \<longrightarrow> ev = DelOk"
    using resume_only_on_ack by blast
  from a b c e f show ?thesis by simp
qed

theorem nodeScanDel_backpressure_witness:
  "feasible [Data [''MOL-a'', ''MOL-b''], DelOk, Data [], End] (init_scan ''MOL-*'')
   \<and> inflight (nodeScanDel ''MOL-*'' (take 1 [Data [''MOL-a'', ''MOL-b''], DelOk, Data [], End]))
       = [[''MOL-a'', ''MOL-b'']]
   \<and> \<not> flowing (nodeScanDel ''MOL-*'' (take 1 [Data [''MOL-a'', ''MOL-b''], DelOk, Data [], End]))
   \<and> flowing (handle DelOk (nodeScanDel ''MOL-*'' [Data [''MOL-a'', ''MOL-b'']]))
   \<and> dels (nodeScanDel ''MOL-*'' [Data [''MOL-a'', ''MOL-b''], DelOk, Data [], End])
       = [[''MOL-a'', ''MOL-b'']]"
proof -
  let ?evs = "[Data [''MOL-a'', ''MOL-b''], DelOk, Data [], End]"
  let ?s = "nodeScanDel ''MOL-*'' [Data [''MOL-a'', ''MOL-b'']]"
  have f: "feasible ?evs (init_scan ''MOL-*'')"
    by (simp add: init_scan_def)
  have i: "inflight (nodeScanDel ''MOL-*'' (take 1 ?evs)) = [[''MOL-a'', ''MOL-b'']]"
    by (simp add: nodeScanDel_def init_scan_def)
  from nodeScanDel_backpressure [of ?evs "''MOL-*''" 1 "[''MOL-a'', ''MOL-b'']" ?s
      "handle DelOk ?s" DelOk 0] f i
  show ?thesis by simp
qed

text \<open>
  C3, evaluated on a single node: when the scan stream emits an error, \<open>clean\<close>
  rejects with that error as it came, its \<open>pattern\<close> undefined; when a batch delete
  fails, the rejection carries the namespaced pattern. The sequential order and the stop
  at the first failure are \<open>sequentialPromises_Cons\<close>, \<open>sequentialPromises_next\<close> and
  \<open>sequentialPromises_fail_fast\<close> above; \<open>nodeScanDel_rejection\<close> gives the two kinds
  of rejection.
\<close>

theorem clean_stream_error_without_pattern:
  "cleaned (clean mol (\<lambda>k. \<lparr>live_nodes = 1, events = [(0, StreamError connection_lost)]\<rparr>) (One ''user:*''))
     = Rejected connection_lost
   \<and> pattern connection_lost = None
   \<and> cleaned (clean mol (\<lambda>k. \<lparr>live_nodes = 1,
                 events = [(0, Data [''MOL-user:1'']), (0, DelFail connection_lost)]\<rparr>) (One ''user:*''))
     = Rejected (connection_lost\<lparr>pattern := Some ''MOL-user:*''\<rparr>)"
  by (simp add: clean_def sequentialPromises_def then_do_def Promise_resolve_def scanDel_def mol_def
      nodeScanDel_def node_events_def init_scan_def settle_def connection_lost_def)

text \<open>
  C4: on a cluster client \<open>_scanDel\<close> is \<open>_clusterScanDel\<close>. It starts one scan per
  node, and each ends in the state that \<open>_nodeScanDel\<close> alone reaches on that node's own
  events. The joined promise resolves exactly when every node's stream reaches its end
  before any error of that node; it rejects exactly when some node's promise rejects, and
  then with the rejection of one of the nodes.
\<close>

theorem scanDel_cluster_all_nodes:
  "(is_cluster cl \<longrightarrow>
      scanDel cl env pat j
      = (joined (clusterScanDel (live_nodes (env (length j))) pat (events (env (length j)))),
         j @ [scans (clusterScanDel (live_nodes (env (length j))) pat (events (env (length j))))]))
   \<and> scans (clusterScanDel n pat tr) = map (\<lambda>i. nodeScanDel pat (node_events i tr)) [0..<n]
   \<and> ((joined (clusterScanDel n pat tr) = Resolved) = (\<forall>i<n. ends_first (node_events i tr)))
   \<and> ((\<exists>e. joined (clusterScanDel n pat tr) = Rejected e)
        = (\<exists>i<n. \<exists>e. settled (nodeScanDel pat (node_events i tr)) = Rejected e))
   \<and> (\<forall>e. joined (clusterScanDel n pat tr) = Rejected e
          \<longrightarrow> (\<exists>i<n. settled (nodeScanDel pat (node_events i tr)) = Rejected e))"
proof -
  let ?f = "clusterScanDel n pat tr"
  have sc: "scans ?f = map (\<lambda>i. nodeScanDel pat (node_events i tr)) [0..<n]"
    by (rule cluster_scans)
  have mem: "(\<exists>s\<in>set (scans ?f). P (settled s)) = (\<exists>i<n. P (settled (nodeScanDel pat (node_events i tr))))" for P
    by (auto simp: sc)
  have inv: "join_inv ?f" by (rule join_inv_cluster)
  have a: "(joined ?f = Resolved) = (\<forall>i<n. ends_first (node_events i tr))"
  proof -
    from inv have "(joined ?f = Resolved) = (\<forall>s\<in>set (scans ?f). settled s = Resolved)"
      by (simp add: join_inv_def)
    also have "\<dots> = (\<forall>i<n. settled (nodeScanDel pat (node_events i tr)) = Resolved)"
      by (auto simp: sc)
    finally show ?thesis by (simp add: nodeScanDel_resolved_iff)
  qed
  have c: "\<forall>e. joined ?f = Rejected e \<longrightarrow> (\<exists>i<n. settled (nodeScanDel pat (node_events i tr)) = Rejected e)"
  proof (intro allI impI)
    fix e assume "joined ?f = Rejected e"
    with inv have "\<exists>s\<in>set (scans ?f). settled s = Rejected e"
      by (simp add: join_inv_def)
    then show "\<exists>i<n. settled (nodeScanDel pat (node_events i tr)) = Rejected e"
      by (auto simp: sc)
  qed
  have b: "(\<exists>e. joined ?f = Rejected e)
        = (\<exists>i<n. \<exists>e. settled (nodeScanDel pat (node_events i tr)) = Rejected e)"
  proof
    assume "\<exists>e. joined ?f = Rejected e"
    with c show "\<exists>i<n. \<exists>e. settled (nodeScanDel pat (node_events i tr)) = Rejected e" by blast
  next
    assume "\<exists>i<n. \<exists>e. settled (nodeScanDel pat (node_events i tr)) = Rejected e"
    then have "\<exists>s\<in>set (scans ?f). \<exists>e. settled s = Rejected e"
      by (auto simp: sc)
    with inv show "\<exists>e. joined ?f = Rejected e"
      by (simp add: join_inv_def)
  qed
  have d: "is_cluster cl \<longrightarrow>
      scanDel cl env pat j
      = (joined (clusterScanDel (live_nodes (env (length j))) pat (events (env (length j)))),
         j @ [scans (clusterScanDel (live_nodes (env (length j))) pat (events (env (length j))))])"
    by (simp add: scanDel_def Let_def)
  from d sc a b c show ?thesis by blast
qed

theorem scanDel_cluster_all_nodes_witness:
  "is_cluster (Cluster [''n1:7000'', ''n2:7000''] [])
   \<and> ends_first (node_events 0 [(0, End), (1, Data [''MOL-a'']), (1, DelOk), (1, End)])
   \<and> ends_first (node_events 1 [(0, End), (1, Data [''MOL-a'']), (1, DelOk), (1, End)])
   \<and> fst (scanDel (Cluster [''n1:7000'', ''n2:7000''] [])
        (\<lambda>k. \<lparr>live_nodes = 2, events = [(0, End), (1, Data [''MOL-a'']), (1, DelOk), (1, End)]\<rparr>)
        ''MOL-*'' []) = Resolved
   \<and> settled (nodeScanDel ''MOL-*'' (node_events 0 [(1, StreamError connection_lost), (0, End)])) = Resolved
   \<and> settled (nodeScanDel ''MOL-*'' (node_events 1 [(1, StreamError connection_lost), (0, End)]))
       = Rejected connection_lost
   \<and> joined (clusterScanDel 2 ''MOL-*'' [(1, StreamError connection_lost), (0, End)])
       = Rejected connection_lost"
proof -
  let ?tr = "[(0, End), (1, Data [''MOL-a'']), (1, DelOk), (1, End)]"
  let ?bad = "[(1, StreamError connection_lost), (0, End)]"
  let ?cl = "Cluster [''n1:7000'', ''n2:7000''] []"
  have e: "\<forall>i<2. ends_first (node_events i ?tr)"
    by (simp add: node_events_def less_Suc_eq numeral_2_eq_2)
  from scanDel_cluster_all_nodes [of ?cl "\<lambda>k. \<lparr>live_nodes = 2, events = ?tr\<rparr>" "''MOL-*''" "[]" 2 ?tr] e
  have ok: "fst (scanDel ?cl (\<lambda>k. \<lparr>live_nodes = 2, events = ?tr\<rparr>) ''MOL-*'' []) = Resolved"
    by simp
  have n0: "settled (nodeScanDel ''MOL-*'' (node_events 0 ?bad)) = Resolved"
    and n1: "settled (nodeScanDel ''MOL-*'' (node_events 1 ?bad)) = Rejected connection_lost"
    by (simp_all add: node_events_def nodeScanDel_def init_scan_def settle_def)
  note t = scanDel_cluster_all_nodes [of ?cl "\<lambda>k. \<lparr>live_nodes = 2, events = ?bad\<rparr>" "''MOL-*''" "[]" 2 ?bad]
  from n1 have "\<exists>i<2. \<exists>e. settled (nodeScanDel ''MOL-*'' (node_events i ?bad)) = Rejected e"
    by (intro exI [of _ 1]) simp
  with t obtain e where j: "joined (clusterScanDel 2 ''MOL-*'' ?bad) = Rejected e"
    by blast
  with t obtain i where i: "i < 2" "settled (nodeScanDel ''MOL-*'' (node_events i ?bad)) = Rejected e"
    by blast
  then have "i = 0 \<or> i = 1" by auto
  with i n0 n1 have "e = connection_lost" by auto
  with j e ok n0 n1 show ?thesis by simp
qed

text \<open>
  C7: on a cacher that \<open>init\<close> made with the redlock package present, \<open>tryLock\<close>
  calls the instance whose retry count is 0, on the key \<open>prefix + key + "-lock"\<close> with
  the ttl, 15000 when omitted; that instance makes exactly one try; without quorum on that
  try the call fails, with quorum it resolves with a closure that unlocks the lock.
  \<open>lock\<close> calls the other instance, whose retry count is the configured one, on the
  same key with the same default; that instance makes at least one try and at most one
  more than its retry count, none of them after a try that reached quorum; when a try
  within that budget reaches quorum \<open>lock\<close> resolves with a closure that unlocks the
  lock, and when none does it fails with the lock error after the whole budget.
\<close>

theorem tryLock_single_attempt:
  "made (init has_ioredis True pfx os) = Inr c \<longrightarrow>
     (\<exists>rl. redlockNonBlocking c = Some rl \<and> rl_retryCount rl = Some 0
        \<and> asked (tryLock dflt quorum c key t)
            = Some (rl, pfx @ key @ ''-lock'', if t = Undefined then Num 15000 else t))
     \<and> attempts (tryLock dflt quorum c key t) = 1
     \<and> (\<not> quorum 0 \<longrightarrow> granted (tryLock dflt quorum c key t) = Inl lock_error)
     \<and> (quorum 0 \<longrightarrow>
          (\<exists>release. granted (tryLock dflt quorum c key t) = Inr release
             \<and> release () = Unlock \<lparr>resource = pfx @ key @ ''-lock'',
                                    duration = (if t = Undefined then Num 15000 else t)\<rparr>))
     \<and> (\<exists>rl. redlock c = Some rl
        \<and> rl_retryCount rl = (case opt_redlock os of Some ro \<Rightarrow> retryCount ro | None \<Rightarrow> None)
        \<and> asked (lock dflt quorum c key t)
            = Some (rl, pfx @ key @ ''-lock'', if t = Undefined then Num 15000 else t)
        \<and> 1 \<le> attempts (lock dflt quorum c key t)
        \<and> attempts (lock dflt quorum c key t)
            \<le> Suc (case rl_retryCount rl of Some r \<Rightarrow> r | None \<Rightarrow> dflt)
        \<and> (\<forall>i < attempts (lock dflt quorum c key t) - 1. \<not> quorum i)
        \<and> ((\<exists>i \<le> (case rl_retryCount rl of Some r \<Rightarrow> r | None \<Rightarrow> dflt). quorum i) \<longrightarrow>
              quorum (attempts (lock dflt quorum c key t) - 1)
              \<and> (\<exists>release. granted (lock dflt quorum c key t) = Inr release
                    \<and> release () = Unlock \<lparr>resource = pfx @ key @ ''-lock'',
                                           duration = (if t = Undefined then Num 15000 else t)\<rparr>))
        \<and> ((\<forall>i \<le> (case rl_retryCount rl of Some r \<Rightarrow> r | None \<Rightarrow> dflt). \<not> quorum i) \<longrightarrow>
              granted (lock dflt quorum c key t) = Inl lock_error
              \<and> attempts (lock dflt quorum c key t)
                  = Suc (case rl_retryCount rl of Some r \<Rightarrow> r | None \<Rightarrow> dflt)))
     \<and> (\<forall>release. granted (lock dflt quorum c key t) = Inr release \<longrightarrow>
          release () = Unlock \<lparr>resource = pfx @ key @ ''-lock'',
                                duration = (if t = Undefined then Num 15000 else t)\<rparr>)"
proof
  assume m: "made (init has_ioredis True pfx os) = Inr c"
  define rc where "rc = (case opt_redlock os of Some ro \<Rightarrow> retryCount ro | None \<Rightarrow> None)"
  define r where "r = (case rc of Some r \<Rightarrow> r | None \<Rightarrow> dflt)"
  define k where "k = pfx @ key @ ''-lock''"
  define t' where "t' = (if t = Undefined then Num 15000 else t)"
  from m obtain cl rcs where c: "c = \<lparr>prefix = pfx, copts = os, client = cl,
        redlock = Some \<lparr>rl_clients = rcs, rl_retryCount = rc\<rparr>,
        redlockNonBlocking = Some \<lparr>rl_clients = rcs, rl_retryCount = Some 0\<rparr>\<rparr>"
    unfolding rc_def
    by (auto simp: init_def Let_def split: if_splits option.splits sum.splits prod.splits)
  have nb: "tryLock dflt quorum c key t =
      \<lparr>asked = Some (\<lparr>rl_clients = rcs, rl_retryCount = Some 0\<rparr>, k, t'),
       attempts = 1,
       granted = (if quorum 0 then Inr (\<lambda>u. Unlock \<lparr>resource = k, duration = t'\<rparr>)
                  else Inl lock_error)\<rparr>"
    by (simp add: tryLock_def c redlock_lock_def Let_def k_def t'_def)
  have lk: "lock dflt quorum c key t =
      \<lparr>asked = Some (\<lparr>rl_clients = rcs, rl_retryCount = rc\<rparr>, k, t'),
       attempts = fst (acquire quorum 0 r),
       granted = (if snd (acquire quorum 0 r)
                  then Inr (\<lambda>u. Unlock \<lparr>resource = k, duration = t'\<rparr>)
                  else Inl lock_error)\<rparr>"
    by (simp add: lock_def c redlock_lock_def Let_def k_def t'_def r_def split: prod.splits)
  have b: "1 \<le> fst (acquire quorum 0 r)" "fst (acquire quorum 0 r) \<le> Suc r"
    using acquire_bounds [of 0 quorum r] by simp_all
  have g: "snd (acquire quorum 0 r) = (\<exists>i\<le>r. quorum i)"
    using acquire_granted [of quorum 0 r] by simp
  have before: "\<forall>i < fst (acquire quorum 0 r) - 1. \<not> quorum i"
  proof (cases "snd (acquire quorum 0 r)")
    case True
    from acquire_stops_at_first [OF this] show ?thesis by simp
  next
    case False
    with g b show ?thesis by auto
  qed
  have ok: "(\<exists>i\<le>r. quorum i) \<longrightarrow> quorum (fst (acquire quorum 0 r) - 1) \<and> snd (acquire quorum 0 r)"
    using g acquire_stops_at_first [of quorum 0 r] by auto
  have ko: "(\<forall>i\<le>r. \<not> quorum i) \<longrightarrow> \<not> snd (acquire quorum 0 r) \<and> fst (acquire quorum 0 r) = Suc r"
    using g acquire_exhausted [of quorum 0 r] by auto
  have rn: "redlockNonBlocking c = Some \<lparr>rl_clients = rcs, rl_retryCount = Some 0\<rparr>"
    by (simp add: c)
  have one: "\<exists>rl. redlockNonBlocking c = Some rl \<and> rl_retryCount rl = Some 0
        \<and> asked (tryLock dflt quorum c key t) = Some (rl, k, t')"
    using rn by (simp add: nb)
  have two: "attempts (tryLock dflt quorum c key t) = 1
     \<and> (\<not> quorum 0 \<longrightarrow> granted (tryLock dflt quorum c key t) = Inl lock_error)
     \<and> (quorum 0 \<longrightarrow>
          (\<exists>release. granted (tryLock dflt quorum c key t) = Inr release
             \<and> release () = Unlock \<lparr>resource = k, duration = t'\<rparr>))"
    by (simp add: nb)
  have three: "\<exists>rl. redlock c = Some rl
        \<and> rl_retryCount rl = rc
        \<and> asked (lock dflt quorum c key t) = Some (rl, k, t')
        \<and> 1 \<le> attempts (lock dflt quorum c key t)
        \<and> attempts (lock dflt quorum c key t) \<le> Suc (case rl_retryCount rl of Some r \<Rightarrow> r | None \<Rightarrow> dflt)
        \<and> (\<forall>i < attempts (lock dflt quorum c key t) - 1. \<not> quorum i)
        \<and> ((\<exists>i \<le> (case rl_retryCount rl of Some r \<Rightarrow> r | None \<Rightarrow> dflt). quorum i) \<longrightarrow>
              quorum (attempts (lock dflt quorum c key t) - 1)
              \<and> (\<exists>release. granted (lock dflt quorum c key t) = Inr release
                    \<and> release () = Unlock \<lparr>resource = k, duration = t'\<rparr>))
        \<and> ((\<forall>i \<le> (case rl_retryCount rl of Some r \<Rightarrow> r | None \<Rightarrow> dflt). \<not> quorum i) \<longrightarrow>
              granted (lock dflt quorum c key t) = Inl lock_error
              \<and> attempts (lock dflt quorum c key t)
                  = Suc (case rl_retryCount rl of Some r \<Rightarrow> r | None \<Rightarrow> dflt))"
  proof (rule exI [of _ "\<lparr>rl_clients = rcs, rl_retryCount = rc\<rparr>"], intro conjI)
    show "redlock c = Some \<lparr>rl_clients = rcs, rl_retryCount = rc\<rparr>" by (simp add: c)
    show "rl_retryCount \<lparr>rl_clients = rcs, rl_retryCount = rc\<rparr> = rc" by simp
    show "asked (lock dflt quorum c key t) = Some (\<lparr>rl_clients = rcs, rl_retryCount = rc\<rparr>, k, t')"
      by (simp add: lk)
    show "1 \<le> attempts (lock dflt quorum c key t)" using b by (simp add: lk)
    show "attempts (lock dflt quorum c key t)
        \<le> Suc (case rl_retryCount \<lparr>rl_clients = rcs, rl_retryCount = rc\<rparr> of Some r \<Rightarrow> r | None \<Rightarrow> dflt)"
      using b by (simp add: lk r_def)
    show "\<forall>i < attempts (lock dflt quorum c key t) - 1. \<not> quorum i"
      using before by (simp add: lk)
    show "(\<exists>i \<le> (case rl_retryCount \<lparr>rl_clients = rcs, rl_retryCount = rc\<rparr> of Some r \<Rightarrow> r | None \<Rightarrow> dflt). quorum i) \<longrightarrow>
              quorum (attempts (lock dflt quorum c key t) - 1)
              \<and> (\<exists>release. granted (lock dflt quorum c key t) = Inr release
                    \<and> release () = Unlock \<lparr>resource = k, duration = t'\<rparr>)"
      using ok by (simp add: lk r_def)
    show "(\<forall>i \<le> (case rl_retryCount \<lparr>rl_clients = rcs, rl_retryCount = rc\<rparr> of Some r \<Rightarrow> r | None \<Rightarrow> dflt). \<not> quorum i) \<longrightarrow>
              granted (lock dflt quorum c key t) = Inl lock_error
              \<and> attempts (lock dflt quorum c key t)
                  = Suc (case rl_retryCount \<lparr>rl_clients = rcs, rl_retryCount = rc\<rparr> of Some r \<Rightarrow> r | None \<Rightarrow> dflt)"
      using ko by (simp add: lk r_def)
  qed
  have four: "\<forall>release. granted (lock dflt quorum c key t) = Inr release \<longrightarrow>
          release () = Unlock \<lparr>resource = k, duration = t'\<rparr>"
    by (auto simp: lk split: if_splits)
  from one two three four
  show "(\<exists>rl. redlockNonBlocking c = Some rl \<and> rl_retryCount rl = Some 0
        \<and> asked (tryLock dflt quorum c key t)
            = Some (rl, pfx @ key @ ''-lock'', if t = Undefined then Num 15000 else t))
     \<and> attempts (tryLock dflt quorum c key t) = 1
     \<and> (\<not> quorum 0 \<longrightarrow> granted (tryLock dflt quorum c key t) = Inl lock_error)
     \<and> (quorum 0 \<longrightarrow>
          (\<exists>release. granted (tryLock dflt quorum c key t) = Inr release
             \<and> release () = Unlock \<lparr>resource = pfx @ key @ ''-lock'',
                                    duration = (if t = Undefined then Num 15000 else t)\<rparr>))
     \<and> (\<exists>rl. redlock c = Some rl
        \<and> rl_retryCount rl = (case opt_redlock os of Some ro \<Rightarrow> retryCount ro | None \<Rightarrow> None)
        \<and> asked (lock dflt quorum c key t)
            = Some (rl, pfx @ key @ ''-lock'', if t = Undefined then Num 15000 else t)
        \<and> 1 \<le> attempts (lock dflt quorum c key t)
        \<and> attempts (lock dflt quorum c key t)
            \<le> Suc (case rl_retryCount rl of Some r \<Rightarrow> r | None \<Rightarrow> dflt)
        \<and> (\<forall>i < attempts (lock dflt quorum c key t) - 1. \<not> quorum i)
        \<and> ((\<exists>i \<le> (case rl_retryCount rl of Some r \<Rightarrow> r | None \<Rightarrow> dflt). quorum i) \<longrightarrow>
              quorum (attempts (lock dflt quorum c key t) - 1)
              \<and> (\<exists>release. granted (lock dflt quorum c key t) = Inr release
                    \<and> release () = Unlock \<lparr>resource = pfx @ key @ ''-lock'',
                                           duration = (if t = Undefined then Num 15000 else t)\<rparr>))
        \<and> ((\<forall>i \<le> (case rl_retryCount rl of Some r \<Rightarrow> r | None \<Rightarrow> dflt). \<not> quorum i) \<longrightarrow>
              granted (lock dflt quorum c key t) = Inl lock_error
              \<and> attempts (lock dflt quorum c key t)
                  = Suc (case rl_retryCount rl of Some r \<Rightarrow> r | None \<Rightarrow> dflt)))
     \<and> (\<forall>release. granted (lock dflt quorum c key t) = Inr release \<longrightarrow>
          release () = Unlock \<lparr>resource = pfx @ key @ ''-lock'',
                                duration = (if t = Undefined then Num 15000 else t)\<rparr>)"
    unfolding k_def t'_def rc_def by blast
qed

theorem tryLock_single_attempt_witness:
  "made (init True True ''MOL-'' single_opts) = Inr mol
   \<and> attempts (tryLock 10 (\<lambda>k. 0 < k) mol ''job'' Undefined) = 1
   \<and> granted (tryLock 10 (\<lambda>k. 0 < k) mol ''job'' Undefined) = Inl lock_error
   \<and> asked (tryLock 10 (\<lambda>k. 0 < k) mol ''job'' Undefined)
       = Some (\<lparr>rl_clients = [Redis ''redis://localhost:6379''], rl_retryCount = Some 0\<rparr>,
               ''MOL-job-lock'', Num 15000)
   \<and> (\<exists>release. granted (tryLock 10 (\<lambda>k. True) mol ''job'' (Num 500)) = Inr release
         \<and> release () = Unlock \<lparr>resource = ''MOL-job-lock'', duration = Num 500\<rparr>)
   \<and> attempts (lock 10 (\<lambda>k. 0 < k) mol ''job'' Undefined) = 2
   \<and> (\<exists>release. granted (lock 10 (\<lambda>k. 0 < k) mol ''job'' Undefined) = Inr release
         \<and> release () = Unlock \<lparr>resource = ''MOL-job-lock'', duration = Num 15000\<rparr>)
   \<and> attempts (lock 10 (\<lambda>k. False) mol ''job'' Undefined) = 11
   \<and> granted (lock 10 (\<lambda>k. False) mol ''job'' Undefined) = Inl lock_error"
proof -
  have m: "made (init True True ''MOL-'' single_opts) = Inr mol"
    by (simp add: init_def single_opts_def mol_def Let_def)
  have o: "opt_redlock single_opts = None"
    by (simp add: single_opts_def)
  note t1 = tryLock_single_attempt [of True "''MOL-''" single_opts mol 10 "\<lambda>k. 0 < k" "''job''" Undefined]
  note t2 = tryLock_single_attempt [of True "''MOL-''" single_opts mol 10 "\<lambda>k. True" "''job''" "Num 500"]
  note t3 = tryLock_single_attempt [of True "''MOL-''" single_opts mol 10 "\<lambda>k. False" "''job''" Undefined]
  from t1 m
  have a: "attempts (tryLock 10 (\<lambda>k. 0 < k) mol ''job'' Undefined) = 1
      \<and> granted (tryLock 10 (\<lambda>k. 0 < k) mol ''job'' Undefined) = Inl lock_error
      \<and> asked (tryLock 10 (\<lambda>k. 0 < k) mol ''job'' Undefined)
          = Some (\<lparr>rl_clients = [Redis ''redis://localhost:6379''], rl_retryCount = Some 0\<rparr>,
                  ''MOL-job-lock'', Num 15000)"
    by (auto simp: mol_def)
  from t2 m
  have b: "\<exists>release. granted (tryLock 10 (\<lambda>k. True) mol ''job'' (Num 500)) = Inr release
         \<and> release () = Unlock \<lparr>resource = ''MOL-job-lock'', duration = Num 500\<rparr>"
    by simp
  have q: "\<exists>i\<le>10. 0 < (i::nat)"
    by (rule exI [of _ 1]) simp
  from t1 m o q
  have c: "0 < attempts (lock 10 (\<lambda>k. 0 < k) mol ''job'' Undefined) - 1"
    and d: "\<forall>i < attempts (lock 10 (\<lambda>k. 0 < k) mol ''job'' Undefined) - 1. \<not> 0 < i"
    and e: "\<exists>release. granted (lock 10 (\<lambda>k. 0 < k) mol ''job'' Undefined) = Inr release
         \<and> release () = Unlock \<lparr>resource = ''MOL-job-lock'', duration = Num 15000\<rparr>"
    by auto
  have f: "attempts (lock 10 (\<lambda>k. 0 < k) mol ''job'' Undefined) = 2"
  proof -
    let ?n = "attempts (lock 10 (\<lambda>k. 0 < k) mol ''job'' Undefined)"
    have "\<not> 1 < ?n - 1" using d by auto
    with c show ?thesis by simp
  qed
  from t3 m o
  have g: "attempts (lock 10 (\<lambda>k. False) mol ''job'' Undefined) = 11
      \<and> granted (lock 10 (\<lambda>k. False) mol ''job'' Undefined) = Inl lock_error"
    by auto
  from m a b e f g show ?thesis by simp
qed

text \<open>
  C8: every scan stream that \<open>clean\<close> opens for the k-th pattern matches on
  \<open>prefix @ replace_stars\<close> of that pattern, the prefix applied once; the calls follow
  the order of the patterns, and all of them are made when \<open>clean\<close> resolves. One
  pattern and the array of that one pattern give the same run, and so do no argument and
  \<open>"*"\<close>. \<open>replace_stars\<close> replaces the first \<open>"**"\<close> by \<open>"*"\<close> and goes on
  behind it.
\<close>

theorem clean_patterns_namespaced:
  "list_all2 (\<lambda>q entry. \<forall>s\<in>set entry. match s = prefix c @ replace_stars q)
      (take (length (swept (clean c env (Many ps)))) ps) (swept (clean c env (Many ps)))
   \<and> (cleaned (clean c env (Many ps)) = Resolved \<longrightarrow> length (swept (clean c env (Many ps))) = length ps)
   \<and> clean c env (One q) = clean c env (Many [q])
   \<and> clean c env Omitted = clean c env (One ''*'')
   \<and> (CHR ''*'' \<notin> set u \<longrightarrow> replace_stars (u @ ''**'' @ v) = u @ ''*'' @ replace_stars v)"
proof -
  let ?pats = "map (\<lambda>m. prefix c @ replace_stars m) ps"
  obtain p j where r: "sequentialPromises (client c) env ?pats [] = (p, j)"
    by (cases "sequentialPromises (client c) env ?pats []")
  have sw: "swept (clean c env (Many ps)) = j" and cl: "cleaned (clean c env (Many ps)) = p"
    using r by (simp_all add: clean_def)
  from sequentialPromises_journal [of "client c" env ?pats "[]"] r
  have a: "list_all2 (\<lambda>q entry. \<forall>s\<in>set entry. match s = q) (take (length j) ?pats) j"
    and b: "p = Resolved \<longrightarrow> length j = length ps"
    by simp_all
  from a have "list_all2 (\<lambda>q entry. \<forall>s\<in>set entry. match s = prefix c @ replace_stars q) (take (length j) ps) j"
    by (simp add: take_map list_all2_map1)
  with b sw cl clean_One_Many clean_Omitted replace_stars_first show ?thesis
    by simp
qed

theorem clean_patterns_namespaced_witness:
  "cleaned (clean mol (\<lambda>k. \<lparr>live_nodes = 1, events = [(0, End)]\<rparr>) (Many [''a.**'', ''b''])) = Resolved
   \<and> map (map match) (swept (clean mol (\<lambda>k. \<lparr>live_nodes = 1, events = [(0, End)]\<rparr>) (Many [''a.**'', ''b''])))
       = [[''MOL-a.*''], [''MOL-b'']]
   \<and> CHR ''*'' \<notin> set ''a.''
   \<and> replace_stars ''a.**'' = ''a.*''"
proof -
  let ?r = "clean mol (\<lambda>k. \<lparr>live_nodes = 1, events = [(0, End)]\<rparr>) (Many [''a.**'', ''b''])"
  have res: "cleaned ?r = Resolved"
    by (simp add: clean_def sequentialPromises_def then_do_def Promise_resolve_def scanDel_def mol_def
        nodeScanDel_def node_events_def init_scan_def settle_def)
  have len: "map length (swept ?r) = [1, 1]"
    by (simp add: clean_def sequentialPromises_def then_do_def Promise_resolve_def scanDel_def mol_def
        nodeScanDel_def node_events_def init_scan_def settle_def)
  note t = clean_patterns_namespaced [of mol "\<lambda>k. \<lparr>live_nodes = 1, events = [(0, End)]\<rparr>"
      "[''a.**'', ''b'']" "''x''" "''a.''" "[]"]
  from t res have l2: "length (swept ?r) = 2" by simp
  then obtain e1 e2 where sw: "swept ?r = [e1, e2]"
    by (cases "swept ?r"; cases "tl (swept ?r)") auto
  with len obtain s1 s2 where e: "e1 = [s1]" "e2 = [s2]"
    by (cases e1; cases e2) auto
  from t sw e have "match s1 = prefix mol @ replace_stars ''a.**''" "match s2 = prefix mol @ replace_stars ''b''"
    by simp_all
  with sw e have "map (map match) (swept ?r) = [[''MOL-a.*''], [''MOL-b'']]"
    by (simp add: mol_def)
  moreover from t have "replace_stars ''a.**'' = ''a.*''" by simp
  ultimately show ?thesis using res by simp
qed

text \<open>
  C10: \<open>clean\<close> of the empty array resolves, and no \<open>_scanDel\<close> call is made, so no
  scan is opened and no delete is sent, whatever the nodes would do.
\<close>

theorem clean_no_patterns:
  "clean c env (Many []) = \<lparr>clean_logged = [Debug ''CLEAN ''], cleaned = Resolved, swept = []\<rparr>"
  by (simp add: clean_def sequentialPromises_def Promise_resolve_def)

end
